theory Spec2Isabelle
  imports Main "HOL-Library.Sublist"
begin

section \<open>The crawl-and-diff pipeline of the job change tracker\<close>

text \<open>
  The repository holds the crawl-and-diff logic twice over: \<^verbatim>\<open>scraper.py\<close> has the
  parameterised crawler (\<^verbatim>\<open>max_results\<close>, \<^verbatim>\<open>max_scrolls\<close>, an early \<^verbatim>\<open>break\<close>),
  and \<^verbatim>\<open>run_scraper.py\<close>, \<^verbatim>\<open>app.py\<close> and \<^verbatim>\<open>.github/workflows/app.py\<close> share a
  simpler copy (five scrolls, \<^verbatim>\<open>MAX_RESULTS_PER_COMPANY\<close>). The change detector
  \<^verbatim>\<open>process_changes\<close> and the persistence operation \<^verbatim>\<open>save_job_changes\<close> are the same
  text in every file that has them.

  Everything outside the Python process is an input of the model: what the browser
  shows (a \<open>page\<close> for each URL), which database statements fail, what the clock reads.
\<close>

subsection \<open>Exceptions\<close>

text \<open>
  The exceptions the code distinguishes. \<^verbatim>\<open>NoSuchElementException\<close> is the only one
  caught per card; every other one is caught by a blanket \<^verbatim>\<open>except Exception\<close>.
\<close>

datatype exn =
    NoSuchElementException
  | TimeoutException
  | WebDriverException
  | ValueError
  | LoginFailed
  | SQLAlchemyError

subsection \<open>Scraped records\<close>

text \<open>
  The dictionary \<^verbatim>\<open>scrape_company\<close> appends for each card. \<^verbatim>\<open>get_attribute("href")\<close>
  returns \<^verbatim>\<open>None\<close> for a link without that attribute, hence the option. The
  \<^verbatim>\<open>scraped_at\<close> clock reading that \<^verbatim>\<open>scraper.py\<close> adds is not part of the record:
  nothing downstream reads it. The keys \<^verbatim>\<open>name\<close>, \<^verbatim>\<open>company\<close> and \<^verbatim>\<open>profile_url\<close>, which
  every dictionary and the table row share, are the fields of the base record \<open>ident\<close>.
\<close>

record ident =
  name :: string
  company :: string
  profile_url :: "string option"

record employee = ident +
  position :: string

text \<open>
  A rendered card, as the three element lookups of the loop body see it: each lookup
  either yields its text (or attribute) or raises.
\<close>

record card =
  title_text :: "exn + string"
  primary_subtitle :: "exn + string"
  app_aware_link :: "exn + string option"

text \<open>
  What the browser does at one company URL: \<^verbatim>\<open>driver.get\<close>, the wait for and click on
  the People tab, and, for the k-th pass of the scroll loop, the scroll followed by
  \<^verbatim>\<open>find_elements\<close>.
\<close>

record page =
  get_raises :: "exn option"
  people_tab_raises :: "exn option"
  scrolls :: "nat \<Rightarrow> exn + card list"

subsection \<open>The card loop\<close>

text \<open>The body of the \<^verbatim>\<open>try\<close> inside \<^verbatim>\<open>for card in employee_cards\<close>, lookups in source order.\<close>

definition extract_card :: "string \<Rightarrow> card \<Rightarrow> exn + employee" where
  "extract_card company_name c =
     (case title_text c of
        Inl e \<Rightarrow> Inl e
      | Inr nm \<Rightarrow>
          (case primary_subtitle c of
             Inl e \<Rightarrow> Inl e
           | Inr pos \<Rightarrow>
               (case app_aware_link c of
                  Inl e \<Rightarrow> Inl e
                | Inr href \<Rightarrow>
                    Inr \<lparr>name = nm, company = company_name, profile_url = href,
                         position = pos\<rparr>)))"

text \<open>
  \<^verbatim>\<open>for card in employee_cards\<close>: a \<^verbatim>\<open>NoSuchElementException\<close> skips the card, any other
  exception leaves the loop.
\<close>

fun cards_loop :: "string \<Rightarrow> card list \<Rightarrow> employee list \<Rightarrow> exn + employee list" where
  "cards_loop company_name [] employees = Inr employees"
| "cards_loop company_name (c # cs) employees =
     (case extract_card company_name c of
        Inr e \<Rightarrow> cards_loop company_name cs (employees @ [e])
      | Inl NoSuchElementException \<Rightarrow> cards_loop company_name cs employees
      | Inl x \<Rightarrow> Inl x)"

subsection \<open>The scroll loop and the crawl of one company\<close>

text \<open>Python's \<^verbatim>\<open>xs[:n]\<close>: a negative \<open>n\<close> counts from the end.\<close>

definition py_take :: "int \<Rightarrow> 'a list \<Rightarrow> 'a list" where
  "py_take n xs = (if 0 \<le> n then take (nat n) xs else take (length xs - nat (- n)) xs)"

text \<open>
  \<^verbatim>\<open>scraper.py\<close>: \<^verbatim>\<open>while scroll_count < self.max_scrolls\<close>, with the \<^verbatim>\<open>break\<close> once
  \<^verbatim>\<open>len(employees) >= self.max_results\<close>. The loop returns the list together with the
  final \<^verbatim>\<open>scroll_count\<close>, the number of reveal steps it has run.
\<close>

function scroll_loop ::
  "page \<Rightarrow> string \<Rightarrow> int \<Rightarrow> int \<Rightarrow> nat \<Rightarrow> employee list \<Rightarrow> exn + (employee list \<times> nat)" where
  "scroll_loop pg company_name max_scrolls max_results scroll_count employees =
     (if int scroll_count < max_scrolls then
        (case scrolls pg scroll_count of
           Inl e \<Rightarrow> Inl e
         | Inr employee_cards \<Rightarrow>
             (case cards_loop company_name employee_cards employees of
                Inl e \<Rightarrow> Inl e
              | Inr employees' \<Rightarrow>
                  if max_results \<le> int (length employees')
                  then Inr (employees', scroll_count + 1)
                  else scroll_loop pg company_name max_scrolls max_results
                         (scroll_count + 1) employees'))
      else Inr (employees, scroll_count))"
  by pat_completeness auto
termination
  by (relation "measure (\<lambda>(pg, c, ms, mr, k, es). nat (ms - int k))") auto

declare scroll_loop.simps [simp del]

text \<open>The \<^verbatim>\<open>try\<close> block of \<^verbatim>\<open>scrape_company\<close> up to the \<^verbatim>\<open>return\<close>.\<close>

definition scrape_company_try ::
  "page \<Rightarrow> string \<Rightarrow> int \<Rightarrow> int \<Rightarrow> exn + (employee list \<times> nat)" where
  "scrape_company_try pg company_name max_scrolls max_results =
     (case get_raises pg of
        Some e \<Rightarrow> Inl e
      | None \<Rightarrow>
          (case people_tab_raises pg of
             Some e \<Rightarrow> Inl e
           | None \<Rightarrow> scroll_loop pg company_name max_scrolls max_results 0 []))"

text \<open>
  \<^verbatim>\<open>scrape_company\<close> of \<^verbatim>\<open>scraper.py\<close>: \<^verbatim>\<open>return employees[:self.max_results]\<close>, and
  \<^verbatim>\<open>return []\<close> from the \<^verbatim>\<open>except Exception\<close>.
\<close>

definition scrape_company :: "page \<Rightarrow> string \<Rightarrow> int \<Rightarrow> int \<Rightarrow> employee list" where
  "scrape_company pg company_name max_scrolls max_results =
     (case scrape_company_try pg company_name max_scrolls max_results of
        Inl e \<Rightarrow> []
      | Inr (employees, scroll_count) \<Rightarrow> py_take max_results employees)"

text \<open>The number of reveal steps that crawl has run when it returns normally.\<close>

definition scrape_company_steps :: "page \<Rightarrow> string \<Rightarrow> int \<Rightarrow> int \<Rightarrow> nat option" where
  "scrape_company_steps pg company_name max_scrolls max_results =
     (case scrape_company_try pg company_name max_scrolls max_results of
        Inl e \<Rightarrow> None
      | Inr (employees, scroll_count) \<Rightarrow> Some scroll_count)"

text \<open>
  The copy in \<^verbatim>\<open>run_scraper.py\<close>, \<^verbatim>\<open>app.py\<close> and \<^verbatim>\<open>.github/workflows/app.py\<close>:
  \<^verbatim>\<open>max_scrolls = 5\<close> is a local constant, the loop has no \<^verbatim>\<open>break\<close>, and the cap is the
  module constant \<^verbatim>\<open>MAX_RESULTS_PER_COMPANY\<close>, read from the environment.
\<close>

function scroll_loop_run ::
  "page \<Rightarrow> string \<Rightarrow> nat \<Rightarrow> employee list \<Rightarrow> exn + (employee list \<times> nat)" where
  "scroll_loop_run pg company_name scroll_count employees =
     (if scroll_count < 5 then
        (case scrolls pg scroll_count of
           Inl e \<Rightarrow> Inl e
         | Inr employee_cards \<Rightarrow>
             (case cards_loop company_name employee_cards employees of
                Inl e \<Rightarrow> Inl e
              | Inr employees' \<Rightarrow>
                  scroll_loop_run pg company_name (scroll_count + 1) employees'))
      else Inr (employees, scroll_count))"
  by pat_completeness auto
termination
  by (relation "measure (\<lambda>(pg, c, k, es). 5 - k)") auto

declare scroll_loop_run.simps [simp del]

definition scrape_company_run_try :: "page \<Rightarrow> string \<Rightarrow> exn + (employee list \<times> nat)" where
  "scrape_company_run_try pg company_name =
     (case get_raises pg of
        Some e \<Rightarrow> Inl e
      | None \<Rightarrow>
          (case people_tab_raises pg of
             Some e \<Rightarrow> Inl e
           | None \<Rightarrow> scroll_loop_run pg company_name 0 []))"

definition scrape_company_run :: "int \<Rightarrow> page \<Rightarrow> string \<Rightarrow> employee list" where
  "scrape_company_run MAX_RESULTS_PER_COMPANY pg company_name =
     (case scrape_company_run_try pg company_name of
        Inl e \<Rightarrow> []
      | Inr (employees, scroll_count) \<Rightarrow> py_take MAX_RESULTS_PER_COMPANY employees)"

definition scrape_company_run_steps :: "page \<Rightarrow> string \<Rightarrow> nat option" where
  "scrape_company_run_steps pg company_name =
     (case scrape_company_run_try pg company_name of
        Inl e \<Rightarrow> None
      | Inr (employees, scroll_count) \<Rightarrow> Some scroll_count)"

subsection \<open>The \<^verbatim>\<open>job_changes\<close> table and the database session\<close>

text \<open>
  The dictionary \<^verbatim>\<open>process_changes\<close> builds for a detected change, and the \<^verbatim>\<open>JobChange\<close>
  row of \<^verbatim>\<open>app.py\<close>. The columns \<^verbatim>\<open>id\<close>, \<^verbatim>\<open>created_at\<close> and \<^verbatim>\<open>updated_at\<close> are filled in
  by the database and read by none of the functions below. \<^verbatim>\<open>run_scraper.py\<close> uses
  \<^verbatim>\<open>JobChange\<close> without importing it; the declaration taken here is the one of
  \<^verbatim>\<open>app.py\<close>, where the same two functions stand next to it.
\<close>

record change = ident +
  old_position :: "string option"
  new_position :: string
  change_date :: int

record JobChange = change +
  is_new :: bool

text \<open>\<^verbatim>\<open>is_new = Column(Boolean, default=True)\<close>: the value a row gets when none is given.\<close>

definition is_new_default :: bool where
  "is_new_default = True"

text \<open>
  The world outside the process that the store functions touch: the rows of the table,
  in the order in which a query without \<^verbatim>\<open>ORDER BY\<close> returns them; for each database
  statement still to come, whether it raises; the readings the clock will give.
\<close>

record world =
  rows :: "JobChange list"
  faults :: "bool list"
  clock :: "int list"

text \<open>
  \<^verbatim>\<open>SessionLocal()\<close> is configured with \<^verbatim>\<open>autoflush=False\<close>: an object passed to
  \<^verbatim>\<open>db.add\<close> stays pending, unseen by later queries, until \<^verbatim>\<open>db.commit()\<close>.
\<close>

record session =
  conn :: world
  pending :: "JobChange list"

definition SessionLocal :: "world \<Rightarrow> session" where
  "SessionLocal w = \<lparr>conn = w, pending = []\<rparr>"

text \<open>
  One statement sent to the database: it consumes the next fault flag, and succeeds once
  the list of flags is used up.
\<close>

definition execute :: "world \<Rightarrow> bool \<times> world" where
  "execute w = (case faults w of [] \<Rightarrow> (False, w) | f # fs \<Rightarrow> (f, w\<lparr>faults := fs\<rparr>))"

text \<open>
  The three-column filter of both queries:
  \<^verbatim>\<open>JobChange.name == x["name"], JobChange.company == x["company"],
  JobChange.profile_url == x["profile_url"]\<close>.
\<close>

definition same_identity :: "'a ident_scheme \<Rightarrow> 'b ident_scheme \<Rightarrow> bool" where
  "same_identity r x \<longleftrightarrow>
     name r = name x \<and> company r = company x \<and> profile_url r = profile_url x"

text \<open>\<^verbatim>\<open>db.query(JobChange).filter(...).first()\<close>: the first matching row, or \<^verbatim>\<open>None\<close>.\<close>

definition db_query_first ::
  "session \<Rightarrow> 'a ident_scheme \<Rightarrow> (exn + JobChange option) \<times> session" where
  "db_query_first db x =
     (case execute (conn db) of
        (True, w) \<Rightarrow> (Inl SQLAlchemyError, db\<lparr>conn := w\<rparr>)
      | (False, w) \<Rightarrow> (Inr (find (\<lambda>r. same_identity r x) (rows w)), db\<lparr>conn := w\<rparr>))"

definition db_add :: "session \<Rightarrow> JobChange \<Rightarrow> session" where
  "db_add db r = db\<lparr>pending := pending db @ [r]\<rparr>"

text \<open>\<^verbatim>\<open>db.commit()\<close>: the pending rows are inserted and committed as one statement.\<close>

definition db_commit :: "session \<Rightarrow> exn option \<times> session" where
  "db_commit db =
     (case execute (conn db) of
        (True, w) \<Rightarrow> (Some SQLAlchemyError, db\<lparr>conn := w\<rparr>)
      | (False, w) \<Rightarrow> (None, \<lparr>conn = w\<lparr>rows := rows w @ pending db\<rparr>, pending = []\<rparr>))"

definition db_rollback :: "session \<Rightarrow> session" where
  "db_rollback db = db\<lparr>pending := []\<rparr>"

definition db_close :: "session \<Rightarrow> world" where
  "db_close db = conn db"

text \<open>
  \<^verbatim>\<open>datetime.now(timezone.utc)\<close>: the next reading of the clock (0 once the list of
  readings is used up).
\<close>

definition utcnow :: "session \<Rightarrow> int \<times> session" where
  "utcnow db =
     (case clock (conn db) of
        [] \<Rightarrow> (0, db)
      | t # ts \<Rightarrow> (t, db\<lparr>conn := (conn db)\<lparr>clock := ts\<rparr>\<rparr>))"

subsection \<open>The change detector\<close>

text \<open>The two dictionaries \<^verbatim>\<open>process_changes\<close> appends.\<close>

definition change_of :: "employee \<Rightarrow> string option \<Rightarrow> int \<Rightarrow> change" where
  "change_of employee old t =
     \<lparr>name = name employee, company = company employee, profile_url = profile_url employee,
      old_position = old, new_position = position employee, change_date = t\<rparr>"

text \<open>\<^verbatim>\<open>for employee in employees\<close> of \<^verbatim>\<open>process_changes\<close>.\<close>

fun process_loop ::
  "session \<Rightarrow> employee list \<Rightarrow> change list \<Rightarrow> (exn + change list) \<times> session" where
  "process_loop db [] changes = (Inr changes, db)"
| "process_loop db (employee # employees) changes =
     (case db_query_first db employee of
        (Inl e, db') \<Rightarrow> (Inl e, db')
      | (Inr (Some existing), db') \<Rightarrow>
          if new_position existing \<noteq> position employee then
            (case utcnow db' of
               (t, db'') \<Rightarrow>
                 process_loop db'' employees
                   (changes @ [change_of employee (Some (new_position existing)) t]))
          else process_loop db' employees changes
      | (Inr None, db') \<Rightarrow>
          (case utcnow db' of
             (t, db'') \<Rightarrow>
               process_loop db'' employees (changes @ [change_of employee None t])))"

text \<open>\<^verbatim>\<open>process_changes\<close>: \<^verbatim>\<open>try\<close> / \<^verbatim>\<open>finally: db.close()\<close>; an exception propagates.\<close>

definition process_changes :: "world \<Rightarrow> employee list \<Rightarrow> (exn + change list) \<times> world" where
  "process_changes w employees =
     (case process_loop (SessionLocal w) employees [] of (r, db) \<Rightarrow> (r, db_close db))"

subsection \<open>Persistence\<close>

text \<open>
  \<^verbatim>\<open>JobChange(name=..., company=..., old_position=..., new_position=..., change_date=...,
  profile_url=...)\<close>: \<^verbatim>\<open>is_new\<close> is not passed, so the row gets the column default.
\<close>

definition JobChange_of :: "change \<Rightarrow> JobChange" where
  "JobChange_of c =
     \<lparr>name = name c, company = company c, profile_url = profile_url c,
      old_position = old_position c, new_position = new_position c,
      change_date = change_date c, is_new = is_new_default\<rparr>"

text \<open>\<^verbatim>\<open>for change in changes\<close> of \<^verbatim>\<open>save_job_changes\<close>.\<close>

fun save_loop :: "session \<Rightarrow> change list \<Rightarrow> exn option \<times> session" where
  "save_loop db [] = (None, db)"
| "save_loop db (c # cs) =
     (case db_query_first db c of
        (Inl e, db') \<Rightarrow> (Some e, db')
      | (Inr (Some existing), db') \<Rightarrow> save_loop db' cs
      | (Inr None, db') \<Rightarrow> save_loop (db_add db' (JobChange_of c)) cs)"

text \<open>
  \<^verbatim>\<open>save_job_changes\<close>: the loop, \<^verbatim>\<open>db.commit()\<close>; on any exception \<^verbatim>\<open>db.rollback()\<close> and
  \<^verbatim>\<open>raise\<close>; \<^verbatim>\<open>db.close()\<close> in every case. The first component is the exception that
  leaves the function, if any.
\<close>

definition save_job_changes :: "world \<Rightarrow> change list \<Rightarrow> exn option \<times> world" where
  "save_job_changes w changes =
     (case save_loop (SessionLocal w) changes of
        (Some e, db) \<Rightarrow> (Some e, db_close (db_rollback db))
      | (None, db) \<Rightarrow>
          (case db_commit db of
             (Some e, db') \<Rightarrow> (Some e, db_close (db_rollback db'))
           | (None, db') \<Rightarrow> (None, db_close db')))"

subsection \<open>The browser session\<close>

text \<open>
  What the browser does for the session as a whole: whether launching Chrome raises,
  whether the login raises, whether \<^verbatim>\<open>driver.quit()\<close> raises, and the page behind each URL.
\<close>

record browser =
  chrome_raises :: "exn option"
  login_raises :: "exn option"
  quit_raises :: "exn option"
  web :: "string \<Rightarrow> page"

text \<open>
  The \<^verbatim>\<open>LinkedInScraper\<close> object: whether \<^verbatim>\<open>self.driver\<close> is set, and how many times
  \<^verbatim>\<open>quit()\<close> has been called on that driver.
\<close>

record scraper =
  driver :: bool
  quit_calls :: nat

text \<open>\<^verbatim>\<open>setup_driver\<close>: \<^verbatim>\<open>self.driver = webdriver.Chrome(...)\<close>, or the exception it raises.\<close>

definition setup_driver :: "browser \<Rightarrow> scraper \<Rightarrow> exn + scraper" where
  "setup_driver br s =
     (case chrome_raises br of Some e \<Rightarrow> Inl e | None \<Rightarrow> Inr (s\<lparr>driver := True\<rparr>))"

text \<open>
  \<^verbatim>\<open>LinkedInScraper()\<close> of \<^verbatim>\<open>run_scraper.py\<close> and \<^verbatim>\<open>app.py\<close>: \<^verbatim>\<open>__init__\<close> sets
  \<^verbatim>\<open>self.driver = None\<close> and calls \<^verbatim>\<open>setup_driver\<close>.
\<close>

definition LinkedInScraper :: "browser \<Rightarrow> exn + scraper" where
  "LinkedInScraper br = setup_driver br \<lparr>driver = False, quit_calls = 0\<rparr>"

text \<open>\<^verbatim>\<open>close\<close>: \<^verbatim>\<open>if self.driver: self.driver.quit()\<close>, with no handler around the call.\<close>

definition close :: "browser \<Rightarrow> scraper \<Rightarrow> exn option \<times> scraper" where
  "close br s =
     (if driver s then (quit_raises br, s\<lparr>quit_calls := quit_calls s + 1\<rparr>) else (None, s))"

subsection \<open>The batch of \<^verbatim>\<open>scraper.py\<close>\<close>

text \<open>A tracked company: the dictionary with the keys \<^verbatim>\<open>name\<close> and \<^verbatim>\<open>url\<close>, as a pair.\<close>

type_synonym tracked = "string \<times> string"

text \<open>\<^verbatim>\<open>for company in companies\<close> of \<^verbatim>\<open>scrape_multiple_companies\<close>.\<close>

fun companies_loop ::
  "browser \<Rightarrow> int \<Rightarrow> int \<Rightarrow> tracked list \<Rightarrow> employee list \<Rightarrow> employee list" where
  "companies_loop br max_scrolls max_results [] all_employees = all_employees"
| "companies_loop br max_scrolls max_results ((nm, url) # companies) all_employees =
     companies_loop br max_scrolls max_results companies
       (all_employees @ scrape_company (web br url) nm max_scrolls max_results)"


subsection \<open>The batch of \<^verbatim>\<open>run_scraper.py\<close>\<close>




subsection \<open>The batch of \<^verbatim>\<open>.github/workflows/app.py\<close>\<close>

text \<open>
  \<^verbatim>\<open>for i, company in enumerate(COMPANIES_TO_TRACK)\<close> of \<^verbatim>\<open>show_scrape_page\<close>:
  \<^verbatim>\<open>save_job_changes\<close> is called on every list of changes, empty or not.
\<close>

fun show_loop :: "int \<Rightarrow> browser \<Rightarrow> world \<Rightarrow> tracked list \<Rightarrow> exn option \<times> world" where
  "show_loop cap br w [] = (None, w)"
| "show_loop cap br w ((nm, url) # companies) =
     (let employees = scrape_company_run cap (web br url) nm in
      case process_changes w employees of
        (Inl e, w') \<Rightarrow> (Some e, w')
      | (Inr changes, w') \<Rightarrow>
          (case save_job_changes w' changes of
             (Some e, w'') \<Rightarrow> (Some e, w'')
           | (None, w'') \<Rightarrow> show_loop cap br w'' companies))"

text \<open>
  \<^verbatim>\<open>show_scrape_page\<close> once the button is pressed: \<^verbatim>\<open>scraper.close()\<close> is the last statement
  but one of the \<^verbatim>\<open>try\<close> block, and the \<^verbatim>\<open>except Exception\<close> reports the error. The result
  is the world and the scraper object (none when its construction raised).
\<close>

definition show_scrape_page :: "int \<Rightarrow> browser \<Rightarrow> tracked list \<Rightarrow> world \<Rightarrow> world \<times> scraper option" where
  "show_scrape_page cap br COMPANIES_TO_TRACK w =
     (case LinkedInScraper br of
        Inl e \<Rightarrow> (w, None)
      | Inr s \<Rightarrow>
          (case login_raises br of
             Some e \<Rightarrow> (w, Some s)
           | None \<Rightarrow>
               (case show_loop cap br w COMPANIES_TO_TRACK of
                  (Some e, w') \<Rightarrow> (w', Some s)
                | (None, w') \<Rightarrow> (w', Some (snd (close br s))))))"

subsection \<open>Vocabulary of the properties\<close>

text \<open>A card is well formed when each of the three lookups yields a value.\<close>

definition well_formed :: "card \<Rightarrow> bool" where
  "well_formed c \<longleftrightarrow>
     \<not> isl (title_text c) \<and> \<not> isl (primary_subtitle c) \<and> \<not> isl (app_aware_link c)"

text \<open>
  A card misses a required field when a lookup raises \<^verbatim>\<open>NoSuchElementException\<close> and no
  lookup raises anything else.
\<close>

definition missing_field :: "card \<Rightarrow> bool" where
  "missing_field c \<longleftrightarrow>
     \<not> well_formed c \<and>
     (isl (title_text c) \<longrightarrow> title_text c = Inl NoSuchElementException) \<and>
     (isl (primary_subtitle c) \<longrightarrow> primary_subtitle c = Inl NoSuchElementException) \<and>
     (isl (app_aware_link c) \<longrightarrow> app_aware_link c = Inl NoSuchElementException)"

text \<open>One record for each card of the list whose extraction succeeds, in order.\<close>

definition records_of :: "string \<Rightarrow> card list \<Rightarrow> employee list" where
  "records_of company_name cards =
     concat (map (\<lambda>c. case extract_card company_name c of Inr e \<Rightarrow> [e] | Inl x \<Rightarrow> []) cards)"

text \<open>The records of the cards rendered at reveal step \<open>k\<close>, and of the first \<open>n\<close> steps.\<close>

definition step_records :: "page \<Rightarrow> string \<Rightarrow> nat \<Rightarrow> employee list" where
  "step_records pg company_name k =
     (case scrolls pg k of Inr cards \<Rightarrow> records_of company_name cards | Inl e \<Rightarrow> [])"

definition collected :: "page \<Rightarrow> string \<Rightarrow> nat \<Rightarrow> employee list" where
  "collected pg company_name n = concat (map (step_records pg company_name) [0..<n])"

text \<open>
  The role stored for an identity, as the lookup of the detector sees it: the
  \<^verbatim>\<open>new_position\<close> of the row the query returns, if it returns one.
\<close>

definition stored_role :: "JobChange list \<Rightarrow> 'a ident_scheme \<Rightarrow> string option" where
  "stored_role rs x = map_option new_position (find (\<lambda>r. same_identity r x) rs)"

text \<open>A record is new or changed: no role is stored for it, or a different one.\<close>

definition new_or_changed :: "JobChange list \<Rightarrow> employee \<Rightarrow> bool" where
  "new_or_changed rs e \<longleftrightarrow> stored_role rs e \<noteq> Some (position e)"

text \<open>
  The baseline the specification asks for when several rows are stored for one
  identity: the row with the latest \<^verbatim>\<open>change_date\<close> among them.
\<close>

definition latest_prior :: "JobChange list \<Rightarrow> 'a ident_scheme \<Rightarrow> JobChange option" where
  "latest_prior rs x =
     fold (\<lambda>r best.
             if same_identity r x \<and>
                (case best of None \<Rightarrow> True | Some b \<Rightarrow> change_date b < change_date r)
             then Some r else best)
          rs None"

text \<open>The rows one call of \<^verbatim>\<open>save_job_changes\<close> adds to a table \<open>rs\<close> when it commits.\<close>

definition to_insert :: "JobChange list \<Rightarrow> change list \<Rightarrow> JobChange list" where
  "to_insert rs changes =
     map JobChange_of (filter (\<lambda>c. find (\<lambda>r. same_identity r c) rs = None) changes)"

subsection \<open>Concrete inputs\<close>

text \<open>Cards, pages, rows and a browser on which the theorems below are run.\<close>

definition card_alice :: card where
  "card_alice = \<lparr>title_text = Inr ''Alice'', primary_subtitle = Inr ''Engineer'',
                  app_aware_link = Inr (Some ''P1'')\<rparr>"

definition card_bob :: card where
  "card_bob = \<lparr>title_text = Inr ''Bob'', primary_subtitle = Inr ''Analyst'',
                app_aware_link = Inr (Some ''P2'')\<rparr>"

definition card_no_role :: card where
  "card_no_role = \<lparr>title_text = Inr ''Carol'',
                    primary_subtitle = Inl NoSuchElementException,
                    app_aware_link = Inr (Some ''P3'')\<rparr>"

text \<open>A page that shows the one card of Alice after every scroll.\<close>

definition static_page :: page where
  "static_page = \<lparr>get_raises = None, people_tab_raises = None,
                   scrolls = (\<lambda>k. Inr [card_alice])\<rparr>"

text \<open>A page whose People tab never becomes clickable.\<close>

definition timeout_page :: page where
  "timeout_page = \<lparr>get_raises = None, people_tab_raises = Some TimeoutException,
                    scrolls = (\<lambda>k. Inr [])\<rparr>"

definition emp_alice :: "string \<Rightarrow> employee" where
  "emp_alice pos = \<lparr>name = ''Alice'', company = ''OrgX'', profile_url = Some ''P1'',
                     position = pos\<rparr>"

definition emp_bob :: employee where
  "emp_bob = \<lparr>name = ''Bob'', company = ''OrgX'', profile_url = Some ''P2'',
               position = ''Analyst''\<rparr>"

definition row_alice_engineer :: JobChange where
  "row_alice_engineer =
     \<lparr>name = ''Alice'', company = ''OrgX'', profile_url = Some ''P1'',
      old_position = None, new_position = ''Engineer'', change_date = 100, is_new = True\<rparr>"

definition row_alice_senior :: JobChange where
  "row_alice_senior =
     \<lparr>name = ''Alice'', company = ''OrgX'', profile_url = Some ''P1'',
      old_position = Some ''Engineer'', new_position = ''Senior Engineer'',
      change_date = 200, is_new = True\<rparr>"

text \<open>The event for Alice's promotion, detected at time \<open>t\<close>.\<close>

definition promoted :: "int \<Rightarrow> change" where
  "promoted t = \<lparr>name = ''Alice'', company = ''OrgX'', profile_url = Some ''P1'',
                  old_position = Some ''Engineer'', new_position = ''Senior Engineer'',
                  change_date = t\<rparr>"

text \<open>A world with the given rows, statement outcomes and clock readings.\<close>

definition world_of :: "JobChange list \<Rightarrow> bool list \<Rightarrow> int list \<Rightarrow> world" where
  "world_of rs fs ts = \<lparr>rows = rs, faults = fs, clock = ts\<rparr>"


section \<open>Properties of the crawler\<close>

subsection \<open>The card loop\<close>

lemma extract_card_well_formed:
  "well_formed c \<Longrightarrow> \<exists>e. extract_card co c = Inr e"
  by (auto simp: well_formed_def extract_card_def split: sum.splits)

lemma extract_card_missing:
  "missing_field c \<Longrightarrow> extract_card co c = Inl NoSuchElementException"
  by (auto simp: missing_field_def well_formed_def extract_card_def split: sum.splits)

lemma records_of_Nil [simp]: "records_of co [] = []"
  by (simp add: records_of_def)

lemma records_of_Cons:
  "records_of co (c # cs) =
     (case extract_card co c of Inr e \<Rightarrow> [e] | Inl x \<Rightarrow> []) @ records_of co cs"
  by (simp add: records_of_def)

lemma records_of_append: "records_of co (xs @ ys) = records_of co xs @ records_of co ys"
  by (simp add: records_of_def)

text \<open>When the card loop ends normally it has appended the records of the cards, in order.\<close>

lemma cards_loop_Inr:
  "cards_loop co cards emps = Inr r \<Longrightarrow> r = emps @ records_of co cards"
proof (induction cards arbitrary: emps)
  case Nil
  then show ?case by simp
next
  case (Cons c cs)
  show ?case
  proof (cases "extract_card co c")
    case (Inr e)
    with Cons.prems have "cards_loop co cs (emps @ [e]) = Inr r" by simp
    then have "r = (emps @ [e]) @ records_of co cs" by (rule Cons.IH)
    with Inr show ?thesis by (simp add: records_of_Cons)
  next
    case (Inl x)
    with Cons.prems have "x = NoSuchElementException" and "cards_loop co cs emps = Inr r"
      by (auto split: exn.splits)
    then have "r = emps @ records_of co cs" using Cons.IH by blast
    with Inl show ?thesis by (simp add: records_of_Cons)
  qed
qed

text \<open>Cards that are well formed or miss a field never make the loop raise.\<close>

lemma cards_loop_no_abort:
  "\<forall>c \<in> set cards. well_formed c \<or> missing_field c \<Longrightarrow>
   cards_loop co cards emps = Inr (emps @ records_of co cards)"
proof (induction cards arbitrary: emps)
  case Nil
  then show ?case by simp
next
  case (Cons c cs)
  then show ?case
    by (auto simp: records_of_Cons
        dest: extract_card_well_formed [of _ co] extract_card_missing [of _ co])
qed

lemma length_records_of_well_formed:
  "\<forall>c \<in> set cards. well_formed c \<Longrightarrow> length (records_of co cards) = length cards"
proof (induction cards)
  case Nil
  then show ?case by simp
next
  case (Cons c cs)
  then show ?case
    by (auto simp: records_of_Cons dest: extract_card_well_formed [of _ co])
qed

lemma records_of_skip:
  "missing_field bad \<Longrightarrow> records_of co (pre @ bad # post) = records_of co (pre @ post)"
  by (simp add: records_of_append records_of_Cons extract_card_missing)

text \<open>
  Claim C7 (per-card error isolation). In a rendered list of cards of which exactly one,
  \<open>bad\<close>, misses a required field and all others are well formed, the card loop ends
  normally (the crawl is not aborted), the malformed card is skipped, and exactly one
  record per well-formed card is appended, in order: one fewer than there are cards.
\<close>

theorem per_card_isolation:
  assumes "missing_field bad"
      and "\<forall>c \<in> set (pre @ post). well_formed c"
  shows "cards_loop co (pre @ bad # post) emps = Inr (emps @ records_of co (pre @ post))
       \<and> length (records_of co (pre @ post)) = length (pre @ bad # post) - 1"
proof -
  have "\<forall>c \<in> set (pre @ bad # post). well_formed c \<or> missing_field c"
    using assms by auto
  then have "cards_loop co (pre @ bad # post) emps =
      Inr (emps @ records_of co (pre @ bad # post))"
    by (rule cards_loop_no_abort)
  moreover have "length (records_of co (pre @ post)) = length (pre @ post)"
    using assms(2) by (rule length_records_of_well_formed)
  ultimately show ?thesis
    using assms(1) by (simp add: records_of_skip)
qed

theorem per_card_isolation_witness:
  "missing_field card_no_role
 \<and> well_formed card_alice
 \<and> well_formed card_bob
 \<and> cards_loop ''OrgX'' ([card_alice] @ card_no_role # [card_bob]) [] =
     Inr [emp_alice ''Engineer'', emp_bob]
 \<and> length (records_of ''OrgX'' ([card_alice] @ [card_bob])) = 2"
proof -
  have h1: "missing_field card_no_role"
    by (simp add: missing_field_def well_formed_def card_no_role_def)
  have h2: "\<forall>c \<in> set ([card_alice] @ [card_bob]). well_formed c"
    by (simp add: well_formed_def card_alice_def card_bob_def)
  have r: "records_of ''OrgX'' ([card_alice] @ [card_bob]) = [emp_alice ''Engineer'', emp_bob]"
    by (simp add: records_of_def extract_card_def card_alice_def card_bob_def
        emp_alice_def emp_bob_def)
  from per_card_isolation [OF h1 h2, of "''OrgX''" "[]"] h1 h2 r
  show ?thesis by simp
qed

subsection \<open>The scroll loop\<close>

lemma collected_0 [simp]: "collected pg co 0 = []"
  by (simp add: collected_def)

lemma collected_Suc: "collected pg co (Suc n) = collected pg co n @ step_records pg co n"
  by (simp add: collected_def)

lemma scroll_loop_collected:
  "scroll_loop pg co ms mr k emps = Inr (r, n) \<Longrightarrow>
   k \<le> n \<and> r = emps @ concat (map (step_records pg co) [k..<n])"
proof (induction pg co ms mr k emps rule: scroll_loop.induct)
  case (1 pg co ms mr k emps)
  show ?case
  proof (cases "int k < ms")
    case False
    with "1.prems" show ?thesis by (simp add: scroll_loop.simps [of pg co ms mr k emps])
  next
    case True
    from True "1.prems" obtain cards where cards: "scrolls pg k = Inr cards"
      by (auto simp: scroll_loop.simps [of pg co ms mr k emps] split: sum.splits)
    from True "1.prems" cards obtain emps' where emps': "cards_loop co cards emps = Inr emps'"
      by (auto simp: scroll_loop.simps [of pg co ms mr k emps] split: sum.splits)
    have e: "emps' = emps @ step_records pg co k"
      using cards_loop_Inr [OF emps'] cards by (simp add: step_records_def)
    show ?thesis
    proof (cases "mr \<le> int (length emps')")
      case stop: True
      with True "1.prems" cards emps' have "r = emps'" and "n = k + 1"
        by (simp_all add: scroll_loop.simps [of pg co ms mr k emps])
      with e show ?thesis by (simp add: upt_rec [of k])
    next
      case go: False
      with True "1.prems" cards emps'
      have "scroll_loop pg co ms mr (k + 1) emps' = Inr (r, n)"
        by (simp add: scroll_loop.simps [of pg co ms mr k emps])
      with "1.IH" [OF True cards emps' go]
      have "k + 1 \<le> n" and "r = emps' @ concat (map (step_records pg co) [k + 1..<n])"
        by simp_all
      with e show ?thesis by (simp add: upt_rec [of k])
    qed
  qed
qed

lemma scroll_loop_bound:
  "scroll_loop pg co ms mr k emps = Inr (r, n) \<Longrightarrow> int n \<le> max (int k) ms"
proof (induction pg co ms mr k emps rule: scroll_loop.induct)
  case (1 pg co ms mr k emps)
  show ?case
  proof (cases "int k < ms")
    case False
    with "1.prems" show ?thesis by (simp add: scroll_loop.simps [of pg co ms mr k emps])
  next
    case True
    from True "1.prems" obtain cards where cards: "scrolls pg k = Inr cards"
      by (auto simp: scroll_loop.simps [of pg co ms mr k emps] split: sum.splits)
    from True "1.prems" cards obtain emps' where emps': "cards_loop co cards emps = Inr emps'"
      by (auto simp: scroll_loop.simps [of pg co ms mr k emps] split: sum.splits)
    show ?thesis
    proof (cases "mr \<le> int (length emps')")
      case stop: True
      with True "1.prems" cards emps' have "n = k + 1"
        by (simp_all add: scroll_loop.simps [of pg co ms mr k emps])
      with True show ?thesis by simp
    next
      case go: False
      with True "1.prems" cards emps'
      have "scroll_loop pg co ms mr (k + 1) emps' = Inr (r, n)"
        by (simp add: scroll_loop.simps [of pg co ms mr k emps])
      with "1.IH" [OF True cards emps' go] have "int n \<le> max (int (k + 1)) ms" by simp
      with True show ?thesis by simp
    qed
  qed
qed

lemma scroll_loop_early:
  "scroll_loop pg co ms mr k emps = Inr (r, n) \<Longrightarrow>
   (int n < ms \<longrightarrow> mr \<le> int (length r)) \<and>
   (\<forall>j. k < j \<and> j < n \<longrightarrow>
        int (length (emps @ concat (map (step_records pg co) [k..<j]))) < mr)"
proof (induction pg co ms mr k emps rule: scroll_loop.induct)
  case (1 pg co ms mr k emps)
  show ?case
  proof (cases "int k < ms")
    case False
    with "1.prems" show ?thesis by (simp add: scroll_loop.simps [of pg co ms mr k emps])
  next
    case True
    from True "1.prems" obtain cards where cards: "scrolls pg k = Inr cards"
      by (auto simp: scroll_loop.simps [of pg co ms mr k emps] split: sum.splits)
    from True "1.prems" cards obtain emps' where emps': "cards_loop co cards emps = Inr emps'"
      by (auto simp: scroll_loop.simps [of pg co ms mr k emps] split: sum.splits)
    have e: "emps' = emps @ step_records pg co k"
      using cards_loop_Inr [OF emps'] cards by (simp add: step_records_def)
    show ?thesis
    proof (cases "mr \<le> int (length emps')")
      case stop: True
      with True "1.prems" cards emps' have "r = emps'" and "n = k + 1"
        by (simp_all add: scroll_loop.simps [of pg co ms mr k emps])
      with stop show ?thesis by auto
    next
      case go: False
      with True "1.prems" cards emps'
      have rec: "scroll_loop pg co ms mr (k + 1) emps' = Inr (r, n)"
        by (simp add: scroll_loop.simps [of pg co ms mr k emps])
      from "1.IH" [OF True cards emps' go rec]
      have a: "int n < ms \<longrightarrow> mr \<le> int (length r)"
        and b: "\<forall>j. k + 1 < j \<and> j < n \<longrightarrow>
           int (length (emps' @ concat (map (step_records pg co) [k + 1..<j]))) < mr"
        by simp_all
      have "int (length (emps @ concat (map (step_records pg co) [k..<j]))) < mr"
        if j: "k < j" "j < n" for j
      proof (cases "j = k + 1")
        case True
        with go e show ?thesis by simp
      next
        case False
        with j have "k + 1 < j \<and> j < n" by simp
        with b have "int (length (emps' @ concat (map (step_records pg co) [k + 1..<j]))) < mr"
          by blast
        with e j show ?thesis by (simp add: upt_rec [of k])
      qed
      with a show ?thesis by blast
    qed
  qed
qed

lemma length_py_take: "0 \<le> n \<Longrightarrow> length (py_take n xs) \<le> nat n"
  by (simp add: py_take_def)

lemma scroll_loop_run_collected:
  "scroll_loop_run pg co k emps = Inr (r, n) \<Longrightarrow>
   n = max k 5 \<and> r = emps @ concat (map (step_records pg co) [k..<n])"
proof (induction pg co k emps rule: scroll_loop_run.induct)
  case (1 pg co k emps)
  show ?case
  proof (cases "k < 5")
    case False
    with "1.prems" show ?thesis by (simp add: scroll_loop_run.simps [of pg co k emps])
  next
    case True
    from True "1.prems" obtain cards where cards: "scrolls pg k = Inr cards"
      by (auto simp: scroll_loop_run.simps [of pg co k emps] split: sum.splits)
    from True "1.prems" cards obtain emps' where emps': "cards_loop co cards emps = Inr emps'"
      by (auto simp: scroll_loop_run.simps [of pg co k emps] split: sum.splits)
    have e: "emps' = emps @ step_records pg co k"
      using cards_loop_Inr [OF emps'] cards by (simp add: step_records_def)
    from True "1.prems" cards emps'
    have "scroll_loop_run pg co (k + 1) emps' = Inr (r, n)"
      by (simp add: scroll_loop_run.simps [of pg co k emps])
    with "1.IH" [OF True cards emps']
    have "n = max (k + 1) 5" and "r = emps' @ concat (map (step_records pg co) [k + 1..<n])"
      by simp_all
    with e True show ?thesis by (simp add: upt_rec [of k])
  qed
qed

lemma scrape_company_try_Inr:
  assumes "scrape_company_try pg co ms mr = Inr (r, n)"
  shows "r = collected pg co n"
    and "int n \<le> max 0 ms"
    and "int n < ms \<longrightarrow> mr \<le> int (length r)"
    and "\<forall>j. 0 < j \<and> j < n \<longrightarrow> int (length (collected pg co j)) < mr"
proof -
  from assms have l: "scroll_loop pg co ms mr 0 [] = Inr (r, n)"
    by (auto simp: scrape_company_try_def split: option.splits)
  from scroll_loop_collected [OF l] show "r = collected pg co n" by (simp add: collected_def)
  from scroll_loop_bound [OF l] show "int n \<le> max 0 ms" by simp
  from scroll_loop_early [OF l] show "int n < ms \<longrightarrow> mr \<le> int (length r)"
    and "\<forall>j. 0 < j \<and> j < n \<longrightarrow> int (length (collected pg co j)) < mr"
    by (simp_all add: collected_def)
qed

lemma scrape_company_run_try_Inr:
  assumes "scrape_company_run_try pg co = Inr (r, n)"
  shows "r = collected pg co n" and "n = 5"
proof -
  from assms have l: "scroll_loop_run pg co 0 [] = Inr (r, n)"
    by (auto simp: scrape_company_run_try_def split: option.splits)
  from scroll_loop_run_collected [OF l] show "r = collected pg co n" and "n = 5"
    by (simp_all add: collected_def)
qed

text \<open>What the two crawlers return, and after how many reveal steps.\<close>

lemma length_scrape_company: "0 \<le> mr \<Longrightarrow> length (scrape_company pg co ms mr) \<le> nat mr"
  by (auto simp: scrape_company_def length_py_take split: sum.splits)

lemma length_scrape_company_run: "0 \<le> cap \<Longrightarrow> length (scrape_company_run cap pg co) \<le> nat cap"
  by (auto simp: scrape_company_run_def length_py_take split: sum.splits)

lemmas crawl_eval =
  scrape_company_def scrape_company_try_def scrape_company_steps_def scroll_loop.simps
  scrape_company_run_def scrape_company_run_try_def scrape_company_run_steps_def
  scroll_loop_run.simps extract_card_def py_take_def static_page_def timeout_page_def
  card_alice_def card_bob_def card_no_role_def emp_alice_def emp_bob_def

lemma collected_static_page:
  "collected static_page ''OrgX'' (Suc 0) = [emp_alice ''Engineer'']"
  "collected static_page ''OrgX'' 2 = [emp_alice ''Engineer'', emp_alice ''Engineer'']"
  "collected static_page ''OrgX'' 5 =
     [emp_alice ''Engineer'', emp_alice ''Engineer'', emp_alice ''Engineer'',
      emp_alice ''Engineer'', emp_alice ''Engineer'']"
  by (simp_all add: collected_def step_records_def records_of_def upt_rec crawl_eval)

text \<open>
  Claim C4 (deduplication by profile identifier within one crawl pass), as amended. The
  claim fails: neither copy of the loop looks at the records it already holds. What
  holds instead: when the crawl returns normally after \<open>n\<close> reveal steps, the returned list
  is the truncation to the cap of the records of step 0, then those of step 1, and so on
  up to step \<open>n - 1\<close>, one record per card that extracts at that step, so a card that is
  still rendered at a later step is recorded again.
\<close>

theorem scrape_company_no_dedup:
  "(scrape_company_steps pg co ms mr = Some n \<longrightarrow>
      scrape_company pg co ms mr = py_take mr (collected pg co n))
 \<and> (scrape_company_run_steps pg co = Some m \<longrightarrow>
      scrape_company_run cap pg co = py_take cap (collected pg co m))"
proof (intro conjI impI)
  assume "scrape_company_steps pg co ms mr = Some n"
  then obtain r where t: "scrape_company_try pg co ms mr = Inr (r, n)"
    by (auto simp: scrape_company_steps_def split: sum.splits)
  from scrape_company_try_Inr(1) [OF t] t
  show "scrape_company pg co ms mr = py_take mr (collected pg co n)"
    by (simp add: scrape_company_def)
next
  assume "scrape_company_run_steps pg co = Some m"
  then obtain r where t: "scrape_company_run_try pg co = Inr (r, m)"
    by (auto simp: scrape_company_run_steps_def split: sum.splits)
  from scrape_company_run_try_Inr(1) [OF t] t
  show "scrape_company_run cap pg co = py_take cap (collected pg co m)"
    by (simp add: scrape_company_run_def)
qed

theorem scrape_company_no_dedup_witness:
  "scrape_company_steps static_page ''OrgX'' 2 100 = Some 2
 \<and> scrape_company_run_steps static_page ''OrgX'' = Some 5
 \<and> scrape_company static_page ''OrgX'' 2 100 = [emp_alice ''Engineer'', emp_alice ''Engineer'']
 \<and> scrape_company_run 3 static_page ''OrgX'' =
     [emp_alice ''Engineer'', emp_alice ''Engineer'', emp_alice ''Engineer'']"
proof -
  have h1: "scrape_company_steps static_page ''OrgX'' 2 100 = Some 2"
    by (simp add: crawl_eval)
  have h2: "scrape_company_run_steps static_page ''OrgX'' = Some 5"
    by (simp add: crawl_eval)
  from scrape_company_no_dedup [of static_page "''OrgX''" 2 100 2 5 3] h1 h2
  show ?thesis by (simp add: collected_static_page py_take_def)
qed

text \<open>
  The claim as stated is false: a page that shows the same card after each of two
  scrolls yields that profile identifier twice, in either copy of the crawler.
\<close>

theorem scrape_company_dedup_counterexample:
  "\<not> distinct (map profile_url (scrape_company static_page ''OrgX'' 2 100))
 \<and> \<not> distinct (map profile_url (scrape_company_run 100 static_page ''OrgX''))"
  by (simp add: crawl_eval)

text \<open>
  Claim C5 (result cap and step bound), as amended. For a cap that is not negative, both
  copies return at most \<open>cap\<close> records, namely the first \<open>cap\<close> of the accumulated list. A
  normal return of \<^verbatim>\<open>scraper.py\<close>'s loop comes after at most \<^verbatim>\<open>max_scrolls\<close> reveal steps,
  at no earlier step boundary had the accumulated count reached the cap, and a return
  before \<^verbatim>\<open>max_scrolls\<close> steps means the count has reached it. A normal return of the
  copy in \<^verbatim>\<open>run_scraper.py\<close> and \<^verbatim>\<open>app.py\<close> comes after at most five steps.
\<close>

theorem scrape_company_cap_and_steps:
  assumes "0 \<le> cap"
  shows "length (scrape_company pg co ms cap) \<le> nat cap
       \<and> length (scrape_company_run cap pg co) \<le> nat cap
       \<and> (\<forall>n. scrape_company_steps pg co ms cap = Some n \<longrightarrow>
              int n \<le> max 0 ms
            \<and> (\<forall>j. 0 < j \<and> j < n \<longrightarrow> int (length (collected pg co j)) < cap)
            \<and> (int n < ms \<longrightarrow> cap \<le> int (length (collected pg co n)))
            \<and> scrape_company pg co ms cap = take (nat cap) (collected pg co n))
       \<and> (\<forall>n. scrape_company_run_steps pg co = Some n \<longrightarrow>
              n \<le> 5
            \<and> scrape_company_run cap pg co = take (nat cap) (collected pg co n))"
proof (intro conjI allI impI)
  show "length (scrape_company pg co ms cap) \<le> nat cap"
    using assms by (rule length_scrape_company)
  show "length (scrape_company_run cap pg co) \<le> nat cap"
    using assms by (rule length_scrape_company_run)
next
  fix n assume "scrape_company_steps pg co ms cap = Some n"
  then obtain r where t: "scrape_company_try pg co ms cap = Inr (r, n)"
    by (auto simp: scrape_company_steps_def split: sum.splits)
  note f = scrape_company_try_Inr [OF t]
  show "int n \<le> max 0 ms" by (rule f(2))
  show "scrape_company pg co ms cap = take (nat cap) (collected pg co n)"
    using t f(1) assms by (simp add: scrape_company_def py_take_def)
  { fix j assume "0 < j \<and> j < n"
    with f(4) show "int (length (collected pg co j)) < cap" by blast }
  { assume "int n < ms"
    with f(3) f(1) show "cap \<le> int (length (collected pg co n))" by simp }
next
  fix n assume "scrape_company_run_steps pg co = Some n"
  then obtain r where t: "scrape_company_run_try pg co = Inr (r, n)"
    by (auto simp: scrape_company_run_steps_def split: sum.splits)
  note f = scrape_company_run_try_Inr [OF t]
  show "n \<le> 5" using f(2) by simp
  show "scrape_company_run cap pg co = take (nat cap) (collected pg co n)"
    using t f(1) assms by (simp add: scrape_company_run_def py_take_def)
qed

theorem scrape_company_cap_and_steps_witness:
  "(0::int) \<le> 1
 \<and> scrape_company_steps static_page ''OrgX'' 5 1 = Some 1
 \<and> scrape_company static_page ''OrgX'' 5 1 = [emp_alice ''Engineer'']
 \<and> length (scrape_company static_page ''OrgX'' 5 1) \<le> nat 1
 \<and> length (scrape_company_run 1 static_page ''OrgX'') \<le> nat 1"
proof -
  have h: "(0::int) \<le> 1" by simp
  have s: "scrape_company_steps static_page ''OrgX'' 5 1 = Some 1"
    by (simp add: crawl_eval)
  from scrape_company_cap_and_steps [OF h, of static_page "''OrgX''" 5] s
  show ?thesis by (simp add: collected_static_page)
qed

text \<open>
  The claim as stated is false for the copy in \<^verbatim>\<open>run_scraper.py\<close> and \<^verbatim>\<open>app.py\<close>: with a
  cap of 1 the accumulated count reaches the cap at the first reveal step, where
  \<^verbatim>\<open>scraper.py\<close>'s loop stops, and the copy still runs all five steps.
\<close>

theorem scrape_company_run_early_stop_counterexample:
  "(1::int) \<le> int (length (collected static_page ''OrgX'' 1))
 \<and> scrape_company_steps static_page ''OrgX'' 5 1 = Some 1
 \<and> scrape_company_run_steps static_page ''OrgX'' = Some 5"
  by (simp add: collected_static_page) (simp add: crawl_eval)

section \<open>Properties of the change detector\<close>

lemma db_query_first_Inr:
  "db_query_first db x = (Inr res, db') \<Longrightarrow>
   res = find (\<lambda>r. same_identity r x) (rows (conn db)) \<and>
   rows (conn db') = rows (conn db) \<and> pending db' = pending db"
  by (auto simp: db_query_first_def execute_def split: list.splits if_splits prod.splits bool.splits)

lemma db_query_first_rows:
  "db_query_first db x = (res, db') \<Longrightarrow>
   rows (conn db') = rows (conn db) \<and> pending db' = pending db"
  by (auto simp: db_query_first_def execute_def split: list.splits if_splits prod.splits bool.splits)

lemma utcnow_rows:
  "utcnow db = (t, db') \<Longrightarrow> rows (conn db') = rows (conn db) \<and> pending db' = pending db"
  by (auto simp: utcnow_def split: list.splits)

lemma process_loop_Inr:
  "process_loop db emps acc = (Inr changes, db') \<Longrightarrow>
   rows (conn db') = rows (conn db) \<and>
   (\<exists>ts. length ts = length (filter (new_or_changed (rows (conn db))) emps) \<and>
         changes = acc @ map (\<lambda>(e, t). change_of e (stored_role (rows (conn db)) e) t)
                            (zip (filter (new_or_changed (rows (conn db))) emps) ts))"
proof (induction emps arbitrary: db acc)
  case Nil
  then show ?case by simp
next
  case (Cons e es)
  let ?rs = "rows (conn db)"
  obtain res db1 where q: "db_query_first db e = (res, db1)" by (cases "db_query_first db e")
  with Cons.prems obtain existing where res: "res = Inr existing"
    by (cases res) auto
  from q res have ex: "existing = find (\<lambda>r. same_identity r e) ?rs"
    and r1: "rows (conn db1) = ?rs"
    by (auto dest: db_query_first_Inr)
  show ?case
  proof (cases "new_or_changed ?rs e")
    case False
    then obtain r where "existing = Some r" "new_position r = position e"
      using ex by (auto simp: new_or_changed_def stored_role_def)
    with Cons.prems q res have "process_loop db1 es acc = (Inr changes, db')" by simp
    from Cons.IH [OF this] r1 False show ?thesis by simp
  next
    case True
    obtain t db2 where u: "utcnow db1 = (t, db2)" by (cases "utcnow db1")
    then have r2: "rows (conn db2) = ?rs" using r1 by (auto dest: utcnow_rows)
    have "process_loop db2 es (acc @ [change_of e (stored_role ?rs e) t]) = (Inr changes, db')"
    proof (cases existing)
      case None
      with ex have "stored_role ?rs e = None" by (simp add: stored_role_def)
      with Cons.prems q res u None show ?thesis by simp
    next
      case (Some r)
      with ex have "find (\<lambda>r. same_identity r e) ?rs = Some r" by simp
      then have sr: "stored_role ?rs e = Some (new_position r)" by (simp add: stored_role_def)
      with True have "new_position r \<noteq> position e" by (simp add: new_or_changed_def)
      with Cons.prems q res u Some sr show ?thesis by simp
    qed
    from Cons.IH [OF this] r2 obtain ts where
      ts: "length ts = length (filter (new_or_changed ?rs) es)"
      "changes = (acc @ [change_of e (stored_role ?rs e) t]) @
          map (\<lambda>(e, t). change_of e (stored_role ?rs e) t) (zip (filter (new_or_changed ?rs) es) ts)"
      and r3: "rows (conn db') = ?rs"
      by auto
    have "length (t # ts) = length (filter (new_or_changed ?rs) (e # es))"
      using ts(1) True by simp
    moreover have "changes = acc @ map (\<lambda>(e, t). change_of e (stored_role ?rs e) t)
                            (zip (filter (new_or_changed ?rs) (e # es)) (t # ts))"
      using ts(2) True by simp
    ultimately show ?thesis using r3 by blast
  qed
qed

lemma process_changes_Inr:
  assumes "process_changes w emps = (Inr changes, w')"
  shows "rows w' = rows w"
    and "\<exists>ts. length ts = length (filter (new_or_changed (rows w)) emps) \<and>
         changes = map (\<lambda>(e, t). change_of e (stored_role (rows w) e) t)
                            (zip (filter (new_or_changed (rows w)) emps) ts)"
proof -
  obtain r db where p: "process_loop (SessionLocal w) emps [] = (r, db)"
    by (cases "process_loop (SessionLocal w) emps []")
  with assms have "r = Inr changes" "w' = conn db"
    by (simp_all add: process_changes_def db_close_def)
  with p have "process_loop (SessionLocal w) emps [] = (Inr changes, db)" by simp
  from process_loop_Inr [OF this] \<open>w' = conn db\<close>
  show "rows w' = rows w"
    and "\<exists>ts. length ts = length (filter (new_or_changed (rows w)) emps) \<and>
         changes = map (\<lambda>(e, t). change_of e (stored_role (rows w) e) t)
                            (zip (filter (new_or_changed (rows w)) emps) ts)"
    by (simp_all add: SessionLocal_def)
qed


lemma change_of_sel [simp]:
  "name (change_of e old t) = name e"
  "company (change_of e old t) = company e"
  "profile_url (change_of e old t) = profile_url e"
  "old_position (change_of e old t) = old"
  "new_position (change_of e old t) = position e"
  "change_date (change_of e old t) = t"
  by (simp_all add: change_of_def)



lemmas store_eval =
  process_changes_def save_job_changes_def SessionLocal_def db_query_first_def execute_def
  same_identity_def db_close_def db_commit_def db_add_def db_rollback_def utcnow_def
  change_of_def JobChange_of_def is_new_default_def world_of_def promoted_def
  row_alice_engineer_def row_alice_senior_def emp_alice_def emp_bob_def






lemma find_first_match:
  "\<forall>x \<in> set pre. \<not> P x \<Longrightarrow> P r \<Longrightarrow> find P (pre @ r # post) = Some r"
  by (induction pre) simp_all

text \<open>
  Claim C9 (tie-break among several prior rows), as amended. The claim fails: the lookup
  is \<^verbatim>\<open>.first()\<close> on a query without \<^verbatim>\<open>ORDER BY\<close>, and \<^verbatim>\<open>change_date\<close> is never read.
  What holds instead: the baseline is the first row of that identity in the order in
  which the store returns rows, whatever rows of the same identity follow it and
  whatever their dates.
\<close>

theorem baseline_is_first_match:
  assumes "rows w = pre @ r # post"
      and "\<forall>x \<in> set pre. \<not> same_identity x e"
      and "same_identity r e"
      and "process_changes w [e] = (Inr changes, w')"
  shows "(new_position r = position e \<longrightarrow> changes = [])
       \<and> (new_position r \<noteq> position e \<longrightarrow>
            (\<exists>t. changes = [change_of e (Some (new_position r)) t]))"
proof -
  have "find (\<lambda>x. same_identity x e) (rows w) = Some r"
    unfolding assms(1) using assms(2,3) by (rule find_first_match)
  then have sr: "stored_role (rows w) e = Some (new_position r)"
    by (simp add: stored_role_def)
  from process_changes_Inr(2) [OF assms(4)] obtain ts where
    len: "length ts = length (filter (new_or_changed (rows w)) [e])"
    and ch: "changes = map (\<lambda>(e, t). change_of e (stored_role (rows w) e) t)
                          (zip (filter (new_or_changed (rows w)) [e]) ts)"
    by blast
  show ?thesis
  proof (cases "new_position r = position e")
    case True
    with sr have "\<not> new_or_changed (rows w) e" by (simp add: new_or_changed_def)
    with ch True show ?thesis by simp
  next
    case False
    with sr have n: "new_or_changed (rows w) e" by (simp add: new_or_changed_def)
    with len obtain t where "ts = [t]" by (cases ts) auto
    with ch n sr False show ?thesis by auto
  qed
qed

theorem baseline_is_first_match_witness:
  "rows (world_of [row_alice_engineer, row_alice_senior] [] [300]) =
     [] @ row_alice_engineer # [row_alice_senior]
 \<and> same_identity row_alice_engineer (emp_alice ''Senior Engineer'')
 \<and> process_changes (world_of [row_alice_engineer, row_alice_senior] [] [300])
       [emp_alice ''Senior Engineer''] =
     (Inr [promoted 300], world_of [row_alice_engineer, row_alice_senior] [] [])
 \<and> new_position row_alice_engineer \<noteq> position (emp_alice ''Senior Engineer'')
 \<and> (\<exists>t. [promoted 300] =
          [change_of (emp_alice ''Senior Engineer'') (Some (new_position row_alice_engineer)) t])"
proof -
  have h1: "rows (world_of [row_alice_engineer, row_alice_senior] [] [300]) =
     [] @ row_alice_engineer # [row_alice_senior]"
    by (simp add: world_of_def)
  have h2: "\<forall>x \<in> set []. \<not> same_identity x (emp_alice ''Senior Engineer'')"
    by simp
  have h3: "same_identity row_alice_engineer (emp_alice ''Senior Engineer'')"
    by (simp add: store_eval)
  have h4: "process_changes (world_of [row_alice_engineer, row_alice_senior] [] [300])
       [emp_alice ''Senior Engineer''] =
     (Inr [promoted 300], world_of [row_alice_engineer, row_alice_senior] [] [])"
    by (simp add: store_eval)
  have h5: "new_position row_alice_engineer \<noteq> position (emp_alice ''Senior Engineer'')"
    by (simp add: store_eval)
  from baseline_is_first_match [OF h1 h2 h3 h4] h1 h3 h4 h5
  show ?thesis by blast
qed

text \<open>
  The claim as stated is false. Two rows are stored for Alice, the older one
  (\<^verbatim>\<open>Engineer\<close>, date 100) returned first; the one with the latest \<^verbatim>\<open>change_date\<close> holds
  the role that is observed, so with that row as baseline nothing would be emitted. The
  detector compares with the older row and emits a change from \<^verbatim>\<open>Engineer\<close>.
\<close>

theorem latest_change_date_counterexample:
  "latest_prior [row_alice_engineer, row_alice_senior] (emp_alice ''Senior Engineer'') =
     Some row_alice_senior
 \<and> new_position row_alice_senior = position (emp_alice ''Senior Engineer'')
 \<and> fst (process_changes (world_of [row_alice_engineer, row_alice_senior] [] [300])
           [emp_alice ''Senior Engineer'']) =
     Inr [promoted 300]"
  by (simp add: latest_prior_def store_eval)

section \<open>Properties of the persistence operation\<close>

lemma db_add_sel [simp]:
  "conn (db_add db r) = conn db" "pending (db_add db r) = pending db @ [r]"
  by (simp_all add: db_add_def)

lemma save_loop_rows:
  "save_loop db cs = (x, db') \<Longrightarrow> rows (conn db') = rows (conn db)"
proof (induction cs arbitrary: db)
  case Nil
  then show ?case by simp
next
  case (Cons c cs)
  obtain res db1 where q: "db_query_first db c = (res, db1)" by (cases "db_query_first db c")
  then have r1: "rows (conn db1) = rows (conn db)" by (auto dest: db_query_first_rows)
  show ?case
  proof (cases res)
    case (Inl e)
    with Cons.prems q r1 show ?thesis by auto
  next
    case (Inr existing)
    show ?thesis
    proof (cases existing)
      case None
      with Cons.prems q Inr have "save_loop (db_add db1 (JobChange_of c)) cs = (x, db')" by simp
      from Cons.IH [OF this] r1 show ?thesis by simp
    next
      case (Some r)
      with Cons.prems q Inr have "save_loop db1 cs = (x, db')" by simp
      from Cons.IH [OF this] r1 show ?thesis by simp
    qed
  qed
qed

lemma to_insert_Nil [simp]: "to_insert rs [] = []"
  by (simp add: to_insert_def)

lemma to_insert_Cons:
  "to_insert rs (c # cs) =
     (if find (\<lambda>r. same_identity r c) rs = None then [JobChange_of c] else []) @ to_insert rs cs"
  by (simp add: to_insert_def)

lemma save_loop_pending:
  "save_loop db cs = (None, db') \<Longrightarrow>
   pending db' = pending db @ to_insert (rows (conn db)) cs"
proof (induction cs arbitrary: db)
  case Nil
  then show ?case by simp
next
  case (Cons c cs)
  obtain res db1 where q: "db_query_first db c = (res, db1)" by (cases "db_query_first db c")
  with Cons.prems obtain existing where res: "res = Inr existing" by (cases res) auto
  from q res have ex: "existing = find (\<lambda>r. same_identity r c) (rows (conn db))"
    and r1: "rows (conn db1) = rows (conn db)" and p1: "pending db1 = pending db"
    by (auto dest: db_query_first_Inr)
  show ?case
  proof (cases existing)
    case None
    with Cons.prems q res have "save_loop (db_add db1 (JobChange_of c)) cs = (None, db')" by simp
    from Cons.IH [OF this] r1 p1 None ex show ?thesis by (simp add: to_insert_Cons)
  next
    case (Some r)
    with Cons.prems q res have "save_loop db1 cs = (None, db')" by simp
    from Cons.IH [OF this] r1 p1 Some ex show ?thesis by (simp add: to_insert_Cons)
  qed
qed

lemma db_commit_None:
  "db_commit db = (None, db') \<Longrightarrow> rows (conn db') = rows (conn db) @ pending db"
  by (auto simp: db_commit_def execute_def split: list.splits bool.splits if_splits)

lemma db_commit_Some:
  "db_commit db = (Some e, db') \<Longrightarrow> rows (conn db') = rows (conn db)"
  by (auto simp: db_commit_def execute_def split: list.splits bool.splits if_splits)

lemma save_job_changes_rows:
  assumes "save_job_changes w changes = (x, w')"
  shows "(x = None \<and> rows w' = rows w @ to_insert (rows w) changes)
       \<or> (x \<noteq> None \<and> rows w' = rows w)"
proof -
  obtain y db where l: "save_loop (SessionLocal w) changes = (y, db)"
    by (cases "save_loop (SessionLocal w) changes")
  from save_loop_rows [OF l] have r: "rows (conn db) = rows w" by (simp add: SessionLocal_def)
  show ?thesis
  proof (cases y)
    case (Some e)
    with assms l r show ?thesis
      by (auto simp: save_job_changes_def db_close_def db_rollback_def)
  next
    case None
    with l have p: "pending db = to_insert (rows w) changes"
      by (auto dest: save_loop_pending simp: SessionLocal_def)
    obtain z db2 where c: "db_commit db = (z, db2)" by (cases "db_commit db")
    show ?thesis
    proof (cases z)
      case (Some e)
      with c have "rows (conn db2) = rows w" using r by (auto dest: db_commit_Some)
      with assms l None c Some show ?thesis
        by (auto simp: save_job_changes_def db_close_def db_rollback_def)
    next
      case n: None
      with c have "rows (conn db2) = rows w @ to_insert (rows w) changes"
        using r p by (auto dest: db_commit_None)
      with assms l None c n show ?thesis
        by (auto simp: save_job_changes_def db_close_def)
    qed
  qed
qed

lemma db_query_first_faults:
  "db_query_first db c = (res, db') \<Longrightarrow>
   (isl res \<longleftrightarrow> True \<in> set (take 1 (faults (conn db)))) \<and>
   faults (conn db') = drop 1 (faults (conn db))"
  by (auto simp: db_query_first_def execute_def drop_Suc split: list.splits bool.splits if_splits)

lemma save_loop_faults:
  "save_loop db cs = (x, db') \<Longrightarrow>
   (x = None \<longleftrightarrow> True \<notin> set (take (length cs) (faults (conn db)))) \<and>
   (x = None \<longrightarrow> faults (conn db') = drop (length cs) (faults (conn db)))"
proof (induction cs arbitrary: db)
  case Nil
  then show ?case by auto
next
  case (Cons c cs)
  obtain res db1 where q: "db_query_first db c = (res, db1)" by (cases "db_query_first db c")
  note f = db_query_first_faults [OF q]
  have split: "set (take (Suc (length cs)) (faults (conn db))) =
      set (take 1 (faults (conn db))) \<union> set (take (length cs) (drop 1 (faults (conn db))))"
    by (cases "faults (conn db)") (simp_all add: drop_Suc)
  have dd: "drop (Suc (length cs)) (faults (conn db)) = drop (length cs) (drop 1 (faults (conn db)))"
    by simp
  show ?case
  proof (cases res)
    case (Inl e)
    with Cons.prems q have "x = Some e" by simp
    with f Inl split show ?thesis by simp
  next
    case (Inr existing)
    with f have nf: "True \<notin> set (take 1 (faults (conn db)))" by simp
    show ?thesis
    proof (cases existing)
      case None
      with Cons.prems q Inr have "save_loop (db_add db1 (JobChange_of c)) cs = (x, db')" by simp
      from Cons.IH [OF this] f nf show ?thesis unfolding length_Cons split dd by simp
    next
      case (Some r)
      with Cons.prems q Inr have "save_loop db1 cs = (x, db')" by simp
      from Cons.IH [OF this] f nf show ?thesis unfolding length_Cons split dd by simp
    qed
  qed
qed

lemma db_commit_faults:
  "db_commit db = (x, db') \<Longrightarrow> (x = None \<longleftrightarrow> True \<notin> set (take 1 (faults (conn db))))"
  by (auto simp: db_commit_def execute_def split: list.splits bool.splits if_splits)

lemma save_job_changes_faults:
  assumes "save_job_changes w changes = (x, w')"
  shows "x = None \<longleftrightarrow> True \<notin> set (take (length changes + 1) (faults w))"
proof -
  obtain y db where l: "save_loop (SessionLocal w) changes = (y, db)"
    by (cases "save_loop (SessionLocal w) changes")
  note f = save_loop_faults [OF l, simplified SessionLocal_def, simplified]
  have split: "set (take (length changes + 1) (faults w)) =
      set (take (length changes) (faults w)) \<union> set (take 1 (drop (length changes) (faults w)))"
    by (metis set_append take_add)
  show ?thesis
  proof (cases y)
    case (Some e)
    with assms l have "x = Some e" by (simp add: save_job_changes_def)
    with f Some split show ?thesis by simp
  next
    case None
    obtain z db2 where c: "db_commit db = (z, db2)" by (cases "db_commit db")
    with assms l None have "x = z" by (auto simp: save_job_changes_def split: option.splits)
    with db_commit_faults [OF c] f None split show ?thesis by simp
  qed
qed

text \<open>
  Claim C10 (atomicity of \<^verbatim>\<open>save_job_changes\<close>). The call sends one query per change and
  then one commit. If any of these statements raises, an exception leaves the function
  and the table is what it was before the call; otherwise the function returns normally
  and the table has gained, together, every row the loop added.
\<close>

theorem save_job_changes_atomic:
  assumes "save_job_changes w changes = (x, w')"
  shows "if True \<in> set (take (length changes + 1) (faults w))
         then x \<noteq> None \<and> rows w' = rows w
         else x = None \<and> rows w' = rows w @ to_insert (rows w) changes"
  using save_job_changes_rows [OF assms] save_job_changes_faults [OF assms] by auto

theorem save_job_changes_atomic_witness:
  "save_job_changes (world_of [row_alice_engineer] [False, True] [])
     [change_of emp_bob None 7, promoted 8] =
     (Some SQLAlchemyError, world_of [row_alice_engineer] [] [])
 \<and> True \<in> set (take (length [change_of emp_bob None 7, promoted 8] + 1)
                  (faults (world_of [row_alice_engineer] [False, True] [])))
 \<and> rows (world_of [row_alice_engineer] [] []) =
     rows (world_of [row_alice_engineer] [False, True] [])"
proof -
  have h: "save_job_changes (world_of [row_alice_engineer] [False, True] [])
     [change_of emp_bob None 7, promoted 8] =
     (Some SQLAlchemyError, world_of [row_alice_engineer] [] [])"
    by (simp add: store_eval)
  have f: "True \<in> set (take (length [change_of emp_bob None 7, promoted 8] + 1)
                  (faults (world_of [row_alice_engineer] [False, True] [])))"
    by (simp add: world_of_def)
  from save_job_changes_atomic [OF h] h f
  show ?thesis by simp
qed

lemma is_new_to_insert: "r \<in> set (to_insert rs cs) \<Longrightarrow> is_new r"
  by (auto simp: to_insert_def JobChange_of_def is_new_default_def)

text \<open>
  Claim C3 (the \<^verbatim>\<open>is_new\<close> flag), as amended. The claim fails: \<^verbatim>\<open>save_job_changes\<close> never
  passes \<^verbatim>\<open>is_new\<close>, so the flag does not depend on \<^verbatim>\<open>old_position\<close>. What holds instead:
  every row the call adds to the table carries \<^verbatim>\<open>is_new\<close> true, the column default; in
  particular a first sighting is stored with \<^verbatim>\<open>is_new\<close> true.
\<close>

theorem persisted_rows_is_new_default:
  assumes "save_job_changes w changes = (x, w')"
  shows "\<exists>added. rows w' = rows w @ added \<and> (\<forall>r \<in> set added. is_new r)"
  using save_job_changes_rows [OF assms] by (auto dest: is_new_to_insert)

theorem persisted_rows_is_new_default_witness:
  "save_job_changes (world_of [row_alice_engineer] [] []) [change_of emp_bob None 7] =
     (None, world_of [row_alice_engineer, JobChange_of (change_of emp_bob None 7)] [] [])
 \<and> (\<exists>added. rows (world_of [row_alice_engineer, JobChange_of (change_of emp_bob None 7)] [] []) =
              rows (world_of [row_alice_engineer] [] []) @ added
            \<and> (\<forall>r \<in> set added. is_new r))"
proof -
  have h: "save_job_changes (world_of [row_alice_engineer] [] []) [change_of emp_bob None 7] =
     (None, world_of [row_alice_engineer, JobChange_of (change_of emp_bob None 7)] [] [])"
    by (simp add: store_eval)
  from persisted_rows_is_new_default [OF h] h
  show ?thesis by blast
qed

text \<open>
  The claim as stated is false: an event that carries an \<^verbatim>\<open>old_position\<close>, saved for an
  identity that has no row, is stored with \<^verbatim>\<open>is_new\<close> true.
\<close>

theorem is_new_with_old_position_counterexample:
  "save_job_changes (world_of [] [] []) [promoted 200] =
     (None, world_of [JobChange_of (promoted 200)] [] [])
 \<and> is_new (JobChange_of (promoted 200))
 \<and> old_position (JobChange_of (promoted 200)) = Some ''Engineer''"
  by (simp add: store_eval)

text \<open>
  Claim C2 (an event with a new role is always inserted). The code does otherwise:
  \<^verbatim>\<open>save_job_changes\<close> inserts only when no row at all exists for the identity. Alice is
  stored as \<^verbatim>\<open>Engineer\<close> and is scraped as \<^verbatim>\<open>Senior Engineer\<close>: the detector emits the
  change, the save returns normally, and the table is unchanged, so the change is never
  stored.
\<close>

theorem save_job_changes_drops_role_change:
  "process_changes (world_of [row_alice_engineer] [] [300]) [emp_alice ''Senior Engineer''] =
     (Inr [promoted 300], world_of [row_alice_engineer] [] [])
 \<and> stored_role [row_alice_engineer] (promoted 300) \<noteq> Some (new_position (promoted 300))
 \<and> save_job_changes (world_of [row_alice_engineer] [] []) [promoted 300] =
     (None, world_of [row_alice_engineer] [] [])"
  by (simp add: stored_role_def store_eval)

text \<open>In general: a change for an identity that has a row is never inserted.\<close>

lemma to_insert_known_identity:
  "find (\<lambda>r. same_identity r c) rs \<noteq> None \<Longrightarrow> to_insert rs [c] = []"
  by (simp add: to_insert_def)

text \<open>
  Two events for one unknown identity in one call are both inserted: the query does not
  see the pending row.
\<close>

lemma save_job_changes_batch_duplicates:
  "save_job_changes (world_of [] [] []) [change_of emp_bob None 7, change_of emp_bob None 8] =
     (None, world_of [JobChange_of (change_of emp_bob None 7),
                      JobChange_of (change_of emp_bob None 8)] [] [])"
  by (simp add: store_eval)

section \<open>Properties of the batch\<close>



lemma process_changes_Nil [simp]: "process_changes w [] = (Inr [], w)"
  by (simp add: process_changes_def SessionLocal_def db_close_def)











text \<open>The batch of \<^verbatim>\<open>scraper.py\<close> scrapes every company and collects what each crawl returns.\<close>

lemma companies_loop_concat:
  "companies_loop br ms mr companies acc =
     acc @ concat (map (\<lambda>(nm, url). scrape_company (web br url) nm ms mr) companies)"
  by (induction companies arbitrary: acc) auto




subsection \<open>Releasing the browser\<close>

text \<open>
  In \<^verbatim>\<open>show_scrape_page\<close> the driver is quit only when login and loop raised nothing.
\<close>

lemma show_scrape_page_release:
  "snd (show_scrape_page cap br cs w) =
     (case chrome_raises br of
        Some e \<Rightarrow> None
      | None \<Rightarrow>
          Some \<lparr>driver = True,
                quit_calls =
                  (if login_raises br = None \<and> fst (show_loop cap br w cs) = None
                   then 1 else 0)\<rparr>)"
  by (auto simp: show_scrape_page_def LinkedInScraper_def setup_driver_def close_def
      split: option.splits prod.splits)




end
